theory Spec2Isabelle
  imports Main "HOL-Library.Multiset"
begin

section \<open>Data model of \<open>app/app.go\<close>\<close>

text \<open>
  A non-nil Go \<open>error\<close> is represented by its message; an \<open>error\<close> result is an
  \<open>err option\<close>, with \<open>None\<close> for \<open>nil\<close>.
\<close>

type_synonym err = string

text \<open>
  The parts of \<open>Config\<close> that \<open>Run\<close> reads: \<open>config.Outputs.Console\<close> and
  \<open>config.Outputs.Postgres\<close> are pointers (\<open>None\<close> is the nil pointer), with the fields
  \<open>Disabled\<close> and \<open>URL\<close>. Every other section of the configuration is read by
  collaborators only.
\<close>

record console_config =
  Disabled :: bool

record postgres_config =
  URL :: string

record outputs_config =
  Console :: "console_config option"
  Postgres :: "postgres_config option"

record config =
  Outputs :: outputs_config

datatype contract = Contract string

datatype chain = Chain string

text \<open>
  The contexts of \<open>Run\<close>: the cancellable context made by \<open>context.WithCancel\<close> and the
  context derived from it by \<open>errgroup.WithContext\<close>.
\<close>

datatype go_context = CancelCtx | GroupCtx

datatype zap_logger = ZapLogger

datatype sugared_logger = Sugared zap_logger

record app =
  ctx :: "go_context option"
  logger :: sugared_logger
  config :: config
  contracts :: "contract list"

text \<open>
  The collaborators of \<open>app.go\<close> whose code is outside it are parameters: what each of
  them returns is a field of the environment. \<open>RunLoop\<close> and \<open>server_Run\<close> take the
  state of the group's context at the moment they return (\<open>True\<close>: cancelled); the
  result of \<open>RunLoop\<close> is the failure its loop ended with, if any.
\<close>

record env =
  NewProduction :: "zap_logger option \<times> err option"
  LoadConfigJSON :: "string \<Rightarrow> err + config"
  path_Dir :: "string \<Rightarrow> string"
  LoadContracts :: "config \<Rightarrow> string \<Rightarrow> err + contract list"
  NewChains :: "config \<Rightarrow> contract list \<Rightarrow> chain list"
  Connect :: "string \<Rightarrow> err option"
  MigrateSchema :: "chain list \<Rightarrow> err option"
  RunLoop :: "chain \<Rightarrow> bool \<Rightarrow> err option"
  server_Run :: "bool \<Rightarrow> err option"

text \<open>
  How a call ends: it returns a value, the process exits through the logger's
  \<open>Fatal\<close> methods (\<open>os.Exit\<close>), or the goroutine panics.
\<close>

datatype 'a result = Ok 'a | FatalExit string | Panicked string

section \<open>\<open>NewApp\<close> and the accessors\<close>

text \<open>
  \<open>zapLogger.Sugar()\<close> reads through its receiver: on the nil pointer it panics.
\<close>

definition Sugar :: "zap_logger option \<Rightarrow> sugared_logger result" where
  "Sugar l = (case l of None \<Rightarrow> Panicked ''nil pointer dereference''
                      | Some z \<Rightarrow> Ok (Sugared z))"

text \<open>
  \<open>zapLogger, _ := zap.NewProduction()\<close> keeps the first component only.
\<close>

definition NewApp :: "env \<Rightarrow> string \<Rightarrow> app result" where
  "NewApp env configPath =
     (let zapLogger = fst (NewProduction env) in
      case Sugar zapLogger of
        Panicked m \<Rightarrow> Panicked m
      | FatalExit m \<Rightarrow> FatalExit m
      | Ok lg \<Rightarrow>
          (case LoadConfigJSON env configPath of
             Inl e \<Rightarrow> FatalExit (''Failed to read config file: '' @ e)
           | Inr cfg \<Rightarrow>
               (case LoadContracts env cfg (path_Dir env configPath) of
                  Inl e \<Rightarrow> FatalExit (''Failed to configure contracts: '' @ e)
                | Inr cs \<Rightarrow>
                    Ok \<lparr>ctx = None, logger = lg, config = cfg, contracts = cs\<rparr>)))"

definition Context :: "app \<Rightarrow> go_context option" where
  "Context a = ctx a"

definition Config :: "app \<Rightarrow> config" where
  "Config a = config a"

definition Contracts :: "app \<Rightarrow> contract list" where
  "Contracts a = contracts a"

section \<open>The task group\<close>

datatype task = ChainTask chain | ServiceTask

datatype dest = ConsoleOut | StoreOut

type_synonym payload = string

text \<open>What \<open>Run\<close> and the tasks it starts do, in the order they do it.\<close>

datatype event =
    ScopeCreated
  | ShutdownArmed
  | GroupCreated
  | OutputAdded dest
  | HandlerCreated
  | ChainsConstructed "chain list"
  | DbConstructed
  | DbConnect string "err option"
  | DbMigrate "chain list" "err option"
  | DbClose
  | ServerConstructed
  | TaskStarted task
  | Dispatched chain payload
  | Delivered dest chain payload
  | LoopEnded chain "err option"
  | TaskReturned task "err option"
  | ShutdownSignal
  | GroupCancel
  | WaitReturned "err option"
  | Fatal string

text \<open>
  The function \<open>Run\<close> passes to \<open>g.Go\<close> for a chain: it calls \<open>chain.RunLoop(gctx)\<close>
  and returns \<open>nil\<close>.
\<close>

definition chain_task :: "env \<Rightarrow> chain \<Rightarrow> bool \<Rightarrow> event list \<times> err option" where
  "chain_task env c cancelled =
     (let ended = RunLoop env c cancelled in ([LoopEnded c ended], None))"

fun task_fn :: "env \<Rightarrow> task \<Rightarrow> bool \<Rightarrow> event list \<times> err option" where
  "task_fn env (ChainTask c) cancelled = chain_task env c cancelled"
| "task_fn env ServiceTask cancelled = ([], server_Run env cancelled)"

text \<open>
  Modelled from the spec: the event sink (\<open>NewOutputs\<close>, \<open>Add\<close>, and the dispatch a chain
  reaches through its handler) is outside \<open>app.go\<close>. It holds the destinations in
  registration order and delivers each event to every one of them, in that order.
\<close>

definition NewOutputs :: "dest list" where
  "NewOutputs = []"

definition Add :: "dest list \<Rightarrow> dest \<Rightarrow> dest list" where
  "Add outs d = outs @ [d]"

definition Dispatch :: "dest list \<Rightarrow> chain \<Rightarrow> payload \<Rightarrow> event list" where
  "Dispatch outs c p = Dispatched c p # map (\<lambda>d. Delivered d c p) outs"

text \<open>
  Modelled from the spec: the task group (\<open>errgroup.Group\<close>) and the shutdown trigger are
  outside \<open>app.go\<close>. The group runs every function given to \<open>Go\<close> concurrently; the first
  one to return a failure records it and cancels the group's context; \<open>Wait\<close> blocks
  until all of them have returned, then returns the recorded failure. The shutdown
  trigger cancels the parent context once, and with it the group's context.

  \<open>pending\<close> are the \<open>g.Go\<close> calls \<open>Run\<close> has not made yet, \<open>running\<close> the functions
  started and not returned.
\<close>

record group =
  pending :: "task list"
  running :: "task list"
  gerr :: "err option"
  ctx_done :: bool
  gctx_done :: bool
  gtrace :: "event list"

text \<open>\<open>NewServer(a)\<close> is called between the last chain's \<open>g.Go\<close> and \<open>g.Go(s.Run)\<close>.\<close>

fun start_events :: "task \<Rightarrow> event list" where
  "start_events (ChainTask c) = [TaskStarted (ChainTask c)]"
| "start_events ServiceTask = [ServerConstructed, TaskStarted ServiceTask]"

definition go :: "group \<Rightarrow> group" where
  "go g = (case pending g of
             [] \<Rightarrow> g
           | t # ts \<Rightarrow> g\<lparr>pending := ts, running := running g @ [t],
                         gtrace := gtrace g @ start_events t\<rparr>)"

definition task_returns :: "env \<Rightarrow> task \<Rightarrow> group \<Rightarrow> group" where
  "task_returns env t g =
     (case task_fn env t (gctx_done g) of
        (evs, r) \<Rightarrow>
          (let g1 = g\<lparr>gtrace := gtrace g @ evs @ [TaskReturned t r]\<rparr> in
           case r of
             None \<Rightarrow> g1
           | Some e \<Rightarrow>
               if gerr g1 = None
               then g1\<lparr>gerr := Some e, gctx_done := True,
                        gtrace := gtrace g1 @ [GroupCancel]\<rparr>
               else g1))"

definition finish :: "env \<Rightarrow> nat \<Rightarrow> group \<Rightarrow> group" where
  "finish env i g =
     (if i < length (running g)
      then task_returns env (running g ! i)
             (g\<lparr>running := take i (running g) @ drop (Suc i) (running g)\<rparr>)
      else g)"

definition emit :: "dest list \<Rightarrow> nat \<Rightarrow> payload \<Rightarrow> group \<Rightarrow> group" where
  "emit outs i p g =
     (if i < length (running g)
      then (case running g ! i of
              ChainTask c \<Rightarrow> g\<lparr>gtrace := gtrace g @ Dispatch outs c p\<rparr>
            | ServiceTask \<Rightarrow> g)
      else g)"

definition signal :: "group \<Rightarrow> group" where
  "signal g =
     (if ctx_done g then g
      else g\<lparr>ctx_done := True, gctx_done := True, gtrace := gtrace g @ [ShutdownSignal]\<rparr>)"

text \<open>
  One interleaving of the goroutines is a list of steps: \<open>Run\<close> makes its next \<open>g.Go\<close>
  call, the \<open>i\<close>-th running task returns, the \<open>i\<close>-th running task (a chain) pushes
  an event into the sink, or the termination signal arrives. A step that is not
  enabled leaves the state as it is.
\<close>

datatype sched_step = Spawn | Finish nat | Emit nat payload | Signal

fun step :: "env \<Rightarrow> dest list \<Rightarrow> sched_step \<Rightarrow> group \<Rightarrow> group" where
  "step env outs Spawn g = go g"
| "step env outs (Finish i) g = finish env i g"
| "step env outs (Emit i p) g = emit outs i p g"
| "step env outs Signal g = signal g"

definition go_all :: "group \<Rightarrow> group" where
  "go_all g = fold (\<lambda>t. go) (pending g) g"

text \<open>
  Modelled from the spec: the chain's \<open>RunLoop\<close> and the server's \<open>Run\<close> are outside
  \<open>app.go\<close>. Each runs until the group's context is cancelled or its own work ends;
  once the context is cancelled, every task still running observes it and returns.
\<close>

definition drain :: "env \<Rightarrow> group \<Rightarrow> group" where
  "drain env g =
     (if gctx_done g
      then fold (task_returns env) (running g) (g\<lparr>running := []\<rparr>)
      else g)"

text \<open>
  \<open>g.Wait()\<close>, reached after the last \<open>g.Go\<close>: it returns once no task is running, and
  cancels the group's context on its way out. With tasks still running and the
  context not cancelled, \<open>Wait\<close> stays blocked (\<open>None\<close>).
\<close>

definition wait :: "env \<Rightarrow> group \<Rightarrow> group \<times> err option option" where
  "wait env g =
     (let g1 = drain env g
      in if running g1 = []
         then (g1\<lparr>gctx_done := True, gtrace := gtrace g1 @ [WaitReturned (gerr g1)]\<rparr>,
               Some (gerr g1))
         else (g1, None))"

definition group_run ::
  "env \<Rightarrow> sched_step list \<Rightarrow> chain list \<Rightarrow> dest list \<Rightarrow> event list \<Rightarrow> group" where
  "group_run env sched chs outs tr =
     (let g0 = \<lparr>pending = map ChainTask chs @ [ServiceTask], running = [],
                gerr = None, ctx_done = False, gctx_done = False, gtrace = tr\<rparr>;
          g1 = fold (step env outs) sched g0
      in go_all g1)"

definition supervise ::
  "env \<Rightarrow> sched_step list \<Rightarrow> chain list \<Rightarrow> dest list \<Rightarrow> event list \<Rightarrow> group \<times> err option option" where
  "supervise env sched chs outs tr = wait env (group_run env sched chs outs tr)"

section \<open>\<open>Run\<close>\<close>

datatype outcome = Returned | Exited | Blocked

definition console_enabled :: "config \<Rightarrow> bool" where
  "console_enabled cfg =
     (case Console (Outputs cfg) of None \<Rightarrow> True | Some c \<Rightarrow> \<not> Disabled c)"

text \<open>
  The end of \<open>Run\<close>: a failure from \<open>Wait\<close> goes to \<open>logger.Fatalf\<close>, which exits the
  process, and \<open>os.Exit\<close> runs no deferred call; otherwise \<open>Run\<close> returns and its
  deferred calls run.
\<close>

definition after_wait ::
  "app \<Rightarrow> event list \<Rightarrow> group \<times> err option option \<Rightarrow> app \<times> event list \<times> outcome" where
  "after_wait a deferred w =
     (case w of
        (g, None) \<Rightarrow> (a, gtrace g, Blocked)
      | (g, Some None) \<Rightarrow> (a, gtrace g @ deferred, Returned)
      | (g, Some (Some e)) \<Rightarrow> (a, gtrace g @ [Fatal (''Application error: '' @ e)], Exited))"

definition Run :: "env \<Rightarrow> sched_step list \<Rightarrow> app \<Rightarrow> app \<times> event list \<times> outcome" where
  "Run env sched a0 =
     (let a = a0\<lparr>ctx := Some GroupCtx\<rparr>;
          tr0 = [ScopeCreated, ShutdownArmed, GroupCreated];
          outputs0 = NewOutputs;
          (outputs1, tr1) =
             (if console_enabled (config a)
              then (Add outputs0 ConsoleOut, tr0 @ [OutputAdded ConsoleOut])
              else (outputs0, tr0));
          chs = NewChains env (config a) (contracts a);
          tr2 = tr1 @ [HandlerCreated, ChainsConstructed chs]
      in case Postgres (Outputs (config a)) of
           None \<Rightarrow> after_wait a [] (supervise env sched chs outputs1 tr2)
         | Some pg \<Rightarrow>
             (case Connect env (URL pg) of
                Some e \<Rightarrow>
                  (a, tr2 @ [DbConstructed, DbConnect (URL pg) (Some e),
                             Fatal ''Failed to connect Postgres''], Exited)
              | None \<Rightarrow>
                  (case MigrateSchema env chs of
                     Some e \<Rightarrow>
                       (a, tr2 @ [DbConstructed, DbConnect (URL pg) None,
                                  DbMigrate chs (Some e),
                                  Fatal ''Database.CreateSchemas failed''], Exited)
                   | None \<Rightarrow>
                       after_wait a [DbClose]
                         (supervise env sched chs (Add outputs1 StoreOut)
                            (tr2 @ [DbConstructed, DbConnect (URL pg) None,
                                    DbMigrate chs None, OutputAdded StoreOut])))))"

definition run_app :: "app \<times> event list \<times> outcome \<Rightarrow> app" where
  "run_app r = fst r"

definition run_trace :: "app \<times> event list \<times> outcome \<Rightarrow> event list" where
  "run_trace r = fst (snd r)"

definition run_outcome :: "app \<times> event list \<times> outcome \<Rightarrow> outcome" where
  "run_outcome r = snd (snd r)"

section \<open>Reading a trace\<close>

text \<open>The tasks a trace starts, and the tasks that return in it, in order.\<close>

fun started1 :: "event \<Rightarrow> task list" where
  "started1 (TaskStarted t) = [t]"
| "started1 e = []"

fun returned1 :: "event \<Rightarrow> task list" where
  "returned1 (TaskReturned t r) = [t]"
| "returned1 e = []"

definition started :: "event list \<Rightarrow> task list" where
  "started tr = concat (map started1 tr)"

definition returned :: "event list \<Rightarrow> task list" where
  "returned tr = concat (map returned1 tr)"

text \<open>
  The events of the start-up sequence of \<open>Run\<close>, the events of the tasks, and the
  deliveries that go to a destination of the sink.
\<close>

fun startup_event :: "event \<Rightarrow> bool" where
  "startup_event ScopeCreated = True"
| "startup_event ShutdownArmed = True"
| "startup_event GroupCreated = True"
| "startup_event (OutputAdded d) = True"
| "startup_event HandlerCreated = True"
| "startup_event (ChainsConstructed cs) = True"
| "startup_event DbConstructed = True"
| "startup_event (DbConnect u r) = True"
| "startup_event (DbMigrate cs r) = True"
| "startup_event e = False"

fun task_event :: "event \<Rightarrow> bool" where
  "task_event ServerConstructed = True"
| "task_event (TaskStarted t) = True"
| "task_event (Dispatched c p) = True"
| "task_event (Delivered d c p) = True"
| "task_event (LoopEnded c r) = True"
| "task_event (TaskReturned t r) = True"
| "task_event ShutdownSignal = True"
| "task_event GroupCancel = True"
| "task_event _ = False"

fun sink_event :: "dest list \<Rightarrow> event \<Rightarrow> bool" where
  "sink_event outs (Delivered d c p) = (d \<in> set outs)"
| "sink_event outs e = True"

definition startup_trace :: "config \<Rightarrow> chain list \<Rightarrow> event list" where
  "startup_trace cfg chs =
     [ScopeCreated, ShutdownArmed, GroupCreated]
     @ (if console_enabled cfg then [OutputAdded ConsoleOut] else [])
     @ [HandlerCreated, ChainsConstructed chs]"

definition console_outs :: "config \<Rightarrow> dest list" where
  "console_outs cfg = (if console_enabled cfg then [ConsoleOut] else [])"

definition store_trace :: "string \<Rightarrow> chain list \<Rightarrow> event list" where
  "store_trace url chs =
     [DbConstructed, DbConnect url None, DbMigrate chs None, OutputAdded StoreOut]"

section \<open>Invariants of the task group\<close>

text \<open>
  \<open>M\<close> are the tasks that have not returned yet. The service task is among them at
  most once; the recorded failure of the group is the failure the service task
  returned, and it is recorded together with the cancellation; a chain task returns
  \<open>nil\<close>; cancelling the parent context cancels the group's context.
\<close>

definition group_inv :: "task multiset \<Rightarrow> group \<Rightarrow> bool" where
  "group_inv M g \<longleftrightarrow>
     count M ServiceTask \<le> 1
   \<and> (\<forall>r. TaskReturned ServiceTask r \<in> set (gtrace g) \<longrightarrow> gerr g = r \<and> ServiceTask \<notin># M)
   \<and> (\<forall>e. gerr g = Some e \<longrightarrow> TaskReturned ServiceTask (Some e) \<in> set (gtrace g) \<and> gctx_done g
                 \<and> GroupCancel \<in> set (gtrace g))
   \<and> (GroupCancel \<in> set (gtrace g) \<longrightarrow> gerr g \<noteq> None)
   \<and> (\<forall>c r. TaskReturned (ChainTask c) r \<in> set (gtrace g) \<longrightarrow> r = None)
   \<and> (ctx_done g \<longrightarrow> gctx_done g)"

definition live :: "group \<Rightarrow> task multiset" where
  "live g = mset (pending g) + mset (running g)"

text \<open>Every task started has returned or is still running.\<close>

definition acct :: "task multiset \<Rightarrow> group \<Rightarrow> bool" where
  "acct M g \<longleftrightarrow> mset (started (gtrace g)) = mset (returned (gtrace g)) + M"

text \<open>A later state of the group extends the trace by task events only.\<close>

definition extends :: "dest list \<Rightarrow> group \<Rightarrow> group \<Rightarrow> bool" where
  "extends outs g g' \<longleftrightarrow>
     (\<exists>ext. gtrace g' = gtrace g @ ext \<and> (\<forall>e\<in>set ext. task_event e \<and> sink_event outs e))"

definition init_group :: "chain list \<Rightarrow> event list \<Rightarrow> group" where
  "init_group chs tr = \<lparr>pending = map ChainTask chs @ [ServiceTask], running = [],
                gerr = None, ctx_done = False, gctx_done = False, gtrace = tr\<rparr>"

text \<open>The state of the group that \<open>Wait\<close> decides on.\<close>

definition settled :: "env \<Rightarrow> sched_step list \<Rightarrow> chain list \<Rightarrow> dest list \<Rightarrow> event list \<Rightarrow> group" where
  "settled env sched chs outs tr = drain env (group_run env sched chs outs tr)"

text \<open>
  The start-up sequence of \<open>Run\<close> has reached the task group: \<open>tr\<close> is what it did,
  \<open>outs\<close> the destinations registered, \<open>dfr\<close> what the deferred calls will do.
\<close>

definition started_up :: "env \<Rightarrow> app \<Rightarrow> event list \<Rightarrow> dest list \<Rightarrow> event list \<Rightarrow> bool" where
  "started_up env a tr outs dfr \<longleftrightarrow>
     (let cfg = config a; chs = NewChains env cfg (contracts a) in
      case Postgres (Outputs cfg) of
        None \<Rightarrow> tr = startup_trace cfg chs \<and> outs = console_outs cfg \<and> dfr = []
      | Some pg \<Rightarrow>
          Connect env (URL pg) = None \<and> MigrateSchema env chs = None
          \<and> tr = startup_trace cfg chs @ store_trace (URL pg) chs
          \<and> outs = console_outs cfg @ [StoreOut] \<and> dfr = [DbClose])"

text \<open>What the start-up sequence of \<open>Run\<close> does, as far as it gets.\<close>

definition startup_part :: "env \<Rightarrow> app \<Rightarrow> event list" where
  "startup_part env a =
     (let cfg = config a; chs = NewChains env cfg (contracts a) in
      startup_trace cfg chs @
      (case Postgres (Outputs cfg) of
         None \<Rightarrow> []
       | Some pg \<Rightarrow>
           [DbConstructed, DbConnect (URL pg) (Connect env (URL pg))] @
           (case Connect env (URL pg) of
              Some e \<Rightarrow> []
            | None \<Rightarrow>
                [DbMigrate chs (MigrateSchema env chs)] @
                (case MigrateSchema env chs of
                   Some e \<Rightarrow> []
                 | None \<Rightarrow> [OutputAdded StoreOut]))))"

section \<open>Example inputs\<close>

text \<open>
  An environment in which every collaborator works: a chain's loop and the server end
  without failure once they see the cancellation, and with a failure when they end
  before it.
\<close>

definition env_healthy :: env where
  "env_healthy =
     \<lparr>NewProduction = (Some ZapLogger, None),
      LoadConfigJSON = (\<lambda>p. Inr \<lparr>Outputs = \<lparr>Console = None, Postgres = None\<rparr>\<rparr>),
      path_Dir = (\<lambda>p. ''.''),
      LoadContracts = (\<lambda>c d. Inr [Contract ''token'']),
      NewChains = (\<lambda>c ks. [Chain ''mainnet'', Chain ''testnet'']),
      Connect = (\<lambda>u. None),
      MigrateSchema = (\<lambda>cs. None),
      RunLoop = (\<lambda>c b. if b then None else Some ''rpc connection lost''),
      server_Run = (\<lambda>b. if b then None else Some ''listen failed'')\<rparr>"

definition env_db_down :: env where
  "env_db_down = env_healthy\<lparr>Connect := (\<lambda>u. Some ''connection refused'')\<rparr>"


definition env_no_logger :: env where
  "env_no_logger = env_healthy\<lparr>NewProduction := (None, Some ''no sink'')\<rparr>"

definition app_of :: "config \<Rightarrow> app" where
  "app_of cfg = \<lparr>ctx = None, logger = Sugared ZapLogger, config = cfg,
                 contracts = [Contract ''token'']\<rparr>"

definition cfg_console :: config where
  "cfg_console = \<lparr>Outputs = \<lparr>Console = None, Postgres = None\<rparr>\<rparr>"

definition cfg_store :: config where
  "cfg_store = \<lparr>Outputs = \<lparr>Console = None, Postgres = Some \<lparr>URL = ''postgres://db''\<rparr>\<rparr>\<rparr>"

definition cfg_silent :: config where
  "cfg_silent = \<lparr>Outputs = \<lparr>Console = Some \<lparr>Disabled = True\<rparr>, Postgres = None\<rparr>\<rparr>"

section \<open>Lemmas on the task group\<close>

lemma task_returns_fields [simp]:
  "pending (task_returns env t g) = pending g"
  "running (task_returns env t g) = running g"
  "ctx_done (task_returns env t g) = ctx_done g"
  by (auto simp: task_returns_def Let_def split: prod.splits option.splits)

lemma task_returns_gctx: "gctx_done g \<Longrightarrow> gctx_done (task_returns env t g)"
  by (auto simp: task_returns_def Let_def split: prod.splits option.splits)

lemma inv_task_returns_chain:
  "group_inv (add_mset (ChainTask c) M) g \<Longrightarrow> group_inv M (task_returns env (ChainTask c) g)"
  by (auto simp: group_inv_def task_returns_def chain_task_def Let_def)

lemma inv_task_returns_service:
  assumes "group_inv (add_mset ServiceTask M) g"
  shows "group_inv M (task_returns env ServiceTask g)"
proof -
  from assms have m: "ServiceTask \<notin># M"
    by (auto simp: group_inv_def not_in_iff)
  from assms have fresh: "\<And>r. TaskReturned ServiceTask r \<notin> set (gtrace g)"
    by (auto simp: group_inv_def)
  with assms have noerr: "gerr g = None"
    by (cases "gerr g") (auto simp: group_inv_def)
  show ?thesis
    using assms m fresh noerr
    by (cases "server_Run env (gctx_done g)")
       (auto simp: group_inv_def task_returns_def Let_def not_in_iff)
qed

lemma inv_task_returns:
  "group_inv (add_mset t M) g \<Longrightarrow> group_inv M (task_returns env t g)"
  by (cases t) (auto intro: inv_task_returns_chain inv_task_returns_service)

lemma inv_cong:
  "group_inv M g \<Longrightarrow> gtrace g' = gtrace g \<Longrightarrow> gerr g' = gerr g \<Longrightarrow> gctx_done g' = gctx_done g
     \<Longrightarrow> ctx_done g' = ctx_done g \<Longrightarrow> group_inv M g'"
  by (simp add: group_inv_def)

lemma live_go: "live (go g) = live g"
  by (auto simp: live_def go_def split: list.splits)

lemma inv_go: "group_inv M g \<Longrightarrow> group_inv M (go g)"
  by (cases "pending g"; cases "hd (pending g)") (auto simp: group_inv_def go_def)

lemma inv_emit: "group_inv M g \<Longrightarrow> group_inv M (emit outs i p g)"
  by (auto simp: group_inv_def emit_def Dispatch_def split: task.splits)

lemma live_emit: "live (emit outs i p g) = live g"
  by (auto simp: live_def emit_def split: task.splits)

lemma inv_signal: "group_inv M g \<Longrightarrow> group_inv M (signal g)"
  by (auto simp: group_inv_def signal_def)

lemma live_signal: "live (signal g) = live g"
  by (auto simp: live_def signal_def)

lemma mset_remove_nth:
  "i < length xs \<Longrightarrow> add_mset (xs ! i) (mset (take i xs @ drop (Suc i) xs)) = mset xs"
proof -
  assume "i < length xs"
  then have "xs = take i xs @ xs ! i # drop (Suc i) xs"
    by (rule id_take_nth_drop)
  then have "mset xs = mset (take i xs @ xs ! i # drop (Suc i) xs)"
    by simp
  then show ?thesis by simp
qed

lemma inv_finish: "group_inv (live g) g \<Longrightarrow> group_inv (live (finish env i g)) (finish env i g)"
proof (cases "i < length (running g)")
  case False
  assume "group_inv (live g) g"
  with False show ?thesis by (simp add: finish_def)
next
  case True
  assume a: "group_inv (live g) g"
  let ?g = "g\<lparr>running := take i (running g) @ drop (Suc i) (running g)\<rparr>"
  have "live g = add_mset (running g ! i) (live ?g)"
    using mset_remove_nth [OF True] by (simp add: live_def)
  with a have "group_inv (add_mset (running g ! i) (live ?g)) ?g"
    by (simp add: group_inv_def)
  then have "group_inv (live ?g) (task_returns env (running g ! i) ?g)"
    by (rule inv_task_returns)
  moreover have "live (task_returns env (running g ! i) ?g) = live ?g"
    by (simp add: live_def)
  ultimately show ?thesis using True by (simp add: finish_def)
qed

lemma inv_step: "group_inv (live g) g \<Longrightarrow> group_inv (live (step env outs s g)) (step env outs s g)"
  by (cases s) (simp_all add: inv_go live_go inv_finish inv_emit live_emit inv_signal live_signal)

lemma inv_fold_step:
  "group_inv (live g) g \<Longrightarrow> group_inv (live (fold (step env outs) sched g)) (fold (step env outs) sched g)"
  by (induction sched arbitrary: g) (simp_all add: inv_step)

lemma extends_refl: "extends outs g g"
  by (simp add: extends_def)

lemma extends_trans: "extends outs g g' \<Longrightarrow> extends outs g' g'' \<Longrightarrow> extends outs g g''"
  unfolding extends_def by (metis append.assoc set_append Un_iff)

lemma extends_task_returns: "extends outs g (task_returns env t g)"
  by (cases t)
     (auto simp: extends_def task_returns_def chain_task_def Let_def split: option.splits)

lemma extends_go: "extends outs g (go g)"
  by (cases "pending g"; cases "hd (pending g)") (auto simp: extends_def go_def)

lemma extends_emit: "extends outs g (emit outs i p g)"
  by (auto simp: extends_def emit_def Dispatch_def split: task.splits)

lemma extends_signal: "extends outs g (signal g)"
  by (auto simp: extends_def signal_def)

lemma extends_finish: "extends outs g (finish env i g)"
proof (cases "i < length (running g)")
  case True
  let ?g = "g\<lparr>running := take i (running g) @ drop (Suc i) (running g)\<rparr>"
  have "extends outs ?g (task_returns env (running g ! i) ?g)"
    by (rule extends_task_returns)
  then show ?thesis using True by (simp add: finish_def extends_def)
next
  case False
  then show ?thesis by (simp add: finish_def extends_refl)
qed

lemma extends_step: "extends outs g (step env outs s g)"
  by (cases s) (simp_all add: extends_go extends_finish extends_emit extends_signal)

lemma extends_fold_step: "extends outs g (fold (step env outs) sched g)"
proof (induction sched arbitrary: g)
  case Nil
  show ?case by (simp add: extends_refl)
next
  case (Cons s sched)
  have "extends outs g (step env outs s g)" by (rule extends_step)
  moreover have "extends outs (step env outs s g) (fold (step env outs) sched (step env outs s g))"
    by (rule Cons.IH)
  ultimately show ?case by (simp add: extends_trans)
qed

lemma extends_fold_go: "extends outs g (fold (\<lambda>t. go) ts g)"
proof (induction ts arbitrary: g)
  case Nil
  show ?case by (simp add: extends_refl)
next
  case (Cons t ts)
  have "extends outs g (go g)" by (rule extends_go)
  moreover have "extends outs (go g) (fold (\<lambda>t. go) ts (go g))" by (rule Cons.IH)
  ultimately show ?case by (simp add: extends_trans)
qed

lemma extends_fold_returns: "extends outs g (fold (task_returns env) ts g)"
proof (induction ts arbitrary: g)
  case Nil
  show ?case by (simp add: extends_refl)
next
  case (Cons t ts)
  have "extends outs g (task_returns env t g)" by (rule extends_task_returns)
  moreover have "extends outs (task_returns env t g) (fold (task_returns env) ts (task_returns env t g))"
    by (rule Cons.IH)
  ultimately show ?case by (simp add: extends_trans)
qed

lemma inv_fold_go: "group_inv (live g) g \<Longrightarrow> group_inv (live (fold (\<lambda>t. go) ts g)) (fold (\<lambda>t. go) ts g)"
  by (induction ts arbitrary: g) (simp_all add: inv_go live_go)

lemma pending_fold_go:
  "length (pending g) \<le> length ts \<Longrightarrow> pending (fold (\<lambda>t. go) ts g) = []"
proof (induction ts arbitrary: g)
  case Nil
  then show ?case by simp
next
  case (Cons t ts)
  have "length (pending (go g)) \<le> length ts"
    using Cons.prems by (auto simp: go_def split: list.splits)
  then show ?case using Cons.IH by simp
qed

lemma pending_go_all: "pending (go_all g) = []"
  by (simp add: go_all_def pending_fold_go)

lemma inv_go_all: "group_inv (live g) g \<Longrightarrow> group_inv (live (go_all g)) (go_all g)"
  by (simp add: go_all_def inv_fold_go)

lemma extends_go_all: "extends outs g (go_all g)"
  by (simp add: go_all_def extends_fold_go)

lemma inv_fold_returns:
  "group_inv (mset ts + M) g \<Longrightarrow> group_inv M (fold (task_returns env) ts g)"
proof (induction ts arbitrary: g)
  case Nil
  then show ?case by simp
next
  case (Cons t ts)
  from Cons.prems have "group_inv (add_mset t (mset ts + M)) g" by simp
  then have "group_inv (mset ts + M) (task_returns env t g)" by (rule inv_task_returns)
  then show ?case using Cons.IH by simp
qed

lemma fold_returns_fields [simp]:
  "pending (fold (task_returns env) ts g) = pending g"
  "running (fold (task_returns env) ts g) = running g"
  "ctx_done (fold (task_returns env) ts g) = ctx_done g"
  by (induction ts arbitrary: g) simp_all

lemma fold_returns_gctx:
  "gctx_done g \<Longrightarrow> gctx_done (fold (task_returns env) ts g)"
  by (induction ts arbitrary: g) (simp_all add: task_returns_gctx)

lemma step_ctx_done: "ctx_done g \<Longrightarrow> ctx_done (step env outs s g)"
  by (cases s) (auto simp: go_def finish_def emit_def signal_def split: list.splits task.splits)

lemma fold_step_ctx_done: "ctx_done g \<Longrightarrow> ctx_done (fold (step env outs) sched g)"
  by (induction sched arbitrary: g) (simp_all add: step_ctx_done)

lemma signal_ctx_done: "Signal \<in> set sched \<Longrightarrow> ctx_done (fold (step env outs) sched g)"
proof (induction sched arbitrary: g)
  case Nil
  then show ?case by simp
next
  case (Cons s sched)
  show ?case
  proof (cases "s = Signal")
    case True
    have "ctx_done (signal g)" by (simp add: signal_def)
    then show ?thesis using True by (simp add: fold_step_ctx_done)
  next
    case False
    with Cons.prems have "Signal \<in> set sched" by simp
    then show ?thesis using Cons.IH by simp
  qed
qed

lemma fold_go_ctx_done: "ctx_done g \<Longrightarrow> ctx_done (fold (\<lambda>t. go) ts g)"
  by (induction ts arbitrary: g) (auto simp: go_def split: list.splits)

lemma started_append [simp]: "started (xs @ ys) = started xs @ started ys"
  by (simp add: started_def)

lemma returned_append [simp]: "returned (xs @ ys) = returned xs @ returned ys"
  by (simp add: returned_def)

lemma started_Cons [simp]: "started (x # xs) = started1 x @ started xs"
  by (simp add: started_def)

lemma returned_Cons [simp]: "returned (x # xs) = returned1 x @ returned xs"
  by (simp add: returned_def)

lemma started_Nil [simp]: "started [] = []"
  by (simp add: started_def)

lemma returned_Nil [simp]: "returned [] = []"
  by (simp add: returned_def)

lemma startup_started: "\<forall>e\<in>set tr. startup_event e \<Longrightarrow> started tr = [] \<and> returned tr = []"
proof (induction tr)
  case Nil
  show ?case by simp
next
  case (Cons e tr)
  then show ?case by (cases e) simp_all
qed

lemma acct_task_returns: "acct (add_mset t M) g \<Longrightarrow> acct M (task_returns env t g)"
  by (cases t)
     (auto simp: acct_def task_returns_def chain_task_def Let_def split: option.splits)

lemma started_task_returns: "started (gtrace (task_returns env t g)) = started (gtrace g)"
  by (cases t)
     (auto simp: task_returns_def chain_task_def Let_def split: option.splits)

lemma acct_go: "acct (mset (running g)) g \<Longrightarrow> acct (mset (running (go g))) (go g)"
  by (cases "pending g"; cases "hd (pending g)") (auto simp: acct_def go_def)

lemma order_go: "started (gtrace (go g)) @ pending (go g) = started (gtrace g) @ pending g"
  by (cases "pending g"; cases "hd (pending g)") (auto simp: go_def)

lemma acct_emit: "acct M g \<Longrightarrow> acct M (emit outs i p g)"
proof -
  have "started (map (\<lambda>d. Delivered d c p) outs) = []" for c
    by (induction outs) simp_all
  moreover have "returned (map (\<lambda>d. Delivered d c p) outs) = []" for c
    by (induction outs) simp_all
  moreover assume "acct M g"
  ultimately show ?thesis
    by (auto simp: acct_def emit_def Dispatch_def split: task.splits)
qed

lemma order_emit: "started (gtrace (emit outs i p g)) @ pending (emit outs i p g) = started (gtrace g) @ pending g"
proof -
  have "started (map (\<lambda>d. Delivered d c p) outs) = []" for c
    by (induction outs) simp_all
  then show ?thesis
    by (auto simp: emit_def Dispatch_def split: task.splits)
qed

lemma running_emit: "running (emit outs i p g) = running g"
  by (auto simp: emit_def split: task.splits)

lemma acct_signal: "acct M g \<Longrightarrow> acct M (signal g)"
  by (auto simp: acct_def signal_def)

lemma order_signal: "started (gtrace (signal g)) @ pending (signal g) = started (gtrace g) @ pending g"
  by (auto simp: signal_def)

lemma running_signal: "running (signal g) = running g"
  by (auto simp: signal_def)

lemma acct_finish: "acct (mset (running g)) g \<Longrightarrow> acct (mset (running (finish env i g))) (finish env i g)"
proof (cases "i < length (running g)")
  case False
  assume "acct (mset (running g)) g"
  with False show ?thesis by (simp add: finish_def)
next
  case True
  assume a: "acct (mset (running g)) g"
  let ?g = "g\<lparr>running := take i (running g) @ drop (Suc i) (running g)\<rparr>"
  have "mset (running g) = add_mset (running g ! i) (mset (running ?g))"
    using mset_remove_nth [OF True] by simp
  with a have "acct (add_mset (running g ! i) (mset (running ?g))) ?g"
    by (simp add: acct_def)
  then have "acct (mset (running ?g)) (task_returns env (running g ! i) ?g)"
    by (rule acct_task_returns)
  then show ?thesis using True by (simp add: finish_def)
qed

lemma order_finish: "started (gtrace (finish env i g)) @ pending (finish env i g) = started (gtrace g) @ pending g"
  by (simp add: finish_def started_task_returns)

lemma acct_step: "acct (mset (running g)) g \<Longrightarrow> acct (mset (running (step env outs s g))) (step env outs s g)"
  by (cases s) (simp_all add: acct_go acct_finish acct_emit running_emit acct_signal running_signal)

lemma order_step: "started (gtrace (step env outs s g)) @ pending (step env outs s g) = started (gtrace g) @ pending g"
  by (cases s) (simp_all add: order_go order_finish order_emit order_signal)

lemma acct_fold_step:
  "acct (mset (running g)) g \<Longrightarrow>
     acct (mset (running (fold (step env outs) sched g))) (fold (step env outs) sched g)"
  by (induction sched arbitrary: g) (simp_all add: acct_step)

lemma order_fold_step:
  "started (gtrace (fold (step env outs) sched g)) @ pending (fold (step env outs) sched g)
     = started (gtrace g) @ pending g"
  by (induction sched arbitrary: g) (simp_all add: order_step)

lemma acct_fold_go:
  "acct (mset (running g)) g \<Longrightarrow>
     acct (mset (running (fold (\<lambda>t. go) ts g))) (fold (\<lambda>t. go) ts g)"
  by (induction ts arbitrary: g) (simp_all add: acct_go)

lemma order_fold_go:
  "started (gtrace (fold (\<lambda>t. go) ts g)) @ pending (fold (\<lambda>t. go) ts g)
     = started (gtrace g) @ pending g"
  by (induction ts arbitrary: g) (simp_all add: order_go)

lemma acct_fold_returns:
  "acct (mset ts + M) g \<Longrightarrow> acct M (fold (task_returns env) ts g)"
proof (induction ts arbitrary: g)
  case Nil
  then show ?case by simp
next
  case (Cons t ts)
  from Cons.prems have "acct (add_mset t (mset ts + M)) g" by simp
  then have "acct (mset ts + M) (task_returns env t g)" by (rule acct_task_returns)
  then show ?case using Cons.IH by simp
qed

lemma started_fold_returns:
  "started (gtrace (fold (task_returns env) ts g)) = started (gtrace g)"
  by (induction ts arbitrary: g) (simp_all add: started_task_returns)

lemma group_run_eq:
  "group_run env sched chs outs tr = go_all (fold (step env outs) sched (init_group chs tr))"
  by (simp add: group_run_def init_group_def)

lemma startup_no_task: "startup_event e \<Longrightarrow> \<not> task_event e"
  by (cases e) simp_all

lemma inv_init:
  assumes "\<forall>e\<in>set tr. startup_event e"
  shows "group_inv (live (init_group chs tr)) (init_group chs tr)"
proof -
  have a: "TaskReturned t r \<notin> set tr" for t r
    using assms by (auto dest: bspec [where x = "TaskReturned t r"])
  have b: "GroupCancel \<notin> set tr"
    using assms by (auto dest: bspec [where x = GroupCancel])
  have c: "count (mset (map ChainTask chs)) ServiceTask = 0"
    by (induction chs) simp_all
  show ?thesis
    using a b c by (simp add: group_inv_def live_def init_group_def)
qed

lemma acct_init:
  "\<forall>e\<in>set tr. startup_event e \<Longrightarrow> acct (mset (running (init_group chs tr))) (init_group chs tr)"
  by (simp add: acct_def init_group_def startup_started)

lemma group_run_pending: "pending (group_run env sched chs outs tr) = []"
  by (simp add: group_run_eq pending_go_all)

lemma group_run_inv:
  assumes "\<forall>e\<in>set tr. startup_event e"
  shows "group_inv (mset (running (group_run env sched chs outs tr))) (group_run env sched chs outs tr)"
proof -
  let ?G = "group_run env sched chs outs tr"
  have "group_inv (live ?G) ?G"
    unfolding group_run_eq by (intro inv_go_all inv_fold_step inv_init assms)
  then show ?thesis by (simp add: live_def group_run_pending)
qed

lemma group_run_acct:
  assumes "\<forall>e\<in>set tr. startup_event e"
  shows "acct (mset (running (group_run env sched chs outs tr))) (group_run env sched chs outs tr)"
  unfolding group_run_eq go_all_def by (intro acct_fold_go acct_fold_step acct_init assms)

lemma group_run_started:
  assumes "\<forall>e\<in>set tr. startup_event e"
  shows "started (gtrace (group_run env sched chs outs tr)) = map ChainTask chs @ [ServiceTask]"
proof -
  let ?g1 = "fold (step env outs) sched (init_group chs tr)"
  let ?G = "group_run env sched chs outs tr"
  have "started (gtrace ?G) @ pending ?G = started (gtrace ?g1) @ pending ?g1"
    unfolding group_run_eq go_all_def by (rule order_fold_go)
  also have "\<dots> = started (gtrace (init_group chs tr)) @ pending (init_group chs tr)"
    by (rule order_fold_step)
  also have "\<dots> = map ChainTask chs @ [ServiceTask]"
    using assms by (simp add: init_group_def startup_started)
  finally show ?thesis by (simp add: group_run_pending)
qed

lemma group_run_extends:
  "extends outs (init_group chs tr) (group_run env sched chs outs tr)"
  unfolding group_run_eq
  by (rule extends_trans [OF extends_fold_step extends_go_all])

lemma group_run_signal:
  "Signal \<in> set sched \<Longrightarrow> ctx_done (group_run env sched chs outs tr)"
  unfolding group_run_eq go_all_def by (intro fold_go_ctx_done signal_ctx_done)

lemma settled_pending: "pending (settled env sched chs outs tr) = []"
  by (simp add: settled_def drain_def group_run_pending)

lemma settled_inv:
  assumes "\<forall>e\<in>set tr. startup_event e"
  shows "group_inv (mset (running (settled env sched chs outs tr))) (settled env sched chs outs tr)"
proof -
  let ?G = "group_run env sched chs outs tr"
  have G: "group_inv (mset (running ?G)) ?G" by (rule group_run_inv [OF assms])
  show ?thesis
  proof (cases "gctx_done ?G")
    case False
    then show ?thesis using G by (simp add: settled_def drain_def)
  next
    case True
    from G have "group_inv (mset (running ?G) + {#}) (?G\<lparr>running := []\<rparr>)"
      by (simp add: group_inv_def)
    then have "group_inv {#} (fold (task_returns env) (running ?G) (?G\<lparr>running := []\<rparr>))"
      by (rule inv_fold_returns)
    then show ?thesis using True by (simp add: settled_def drain_def)
  qed
qed

lemma settled_acct:
  assumes "\<forall>e\<in>set tr. startup_event e"
  shows "acct (mset (running (settled env sched chs outs tr))) (settled env sched chs outs tr)"
proof -
  let ?G = "group_run env sched chs outs tr"
  have G: "acct (mset (running ?G)) ?G" by (rule group_run_acct [OF assms])
  show ?thesis
  proof (cases "gctx_done ?G")
    case False
    then show ?thesis using G by (simp add: settled_def drain_def)
  next
    case True
    from G have "acct (mset (running ?G) + {#}) (?G\<lparr>running := []\<rparr>)"
      by (simp add: acct_def)
    then have "acct {#} (fold (task_returns env) (running ?G) (?G\<lparr>running := []\<rparr>))"
      by (rule acct_fold_returns)
    then show ?thesis using True by (simp add: settled_def drain_def)
  qed
qed

lemma settled_started:
  assumes "\<forall>e\<in>set tr. startup_event e"
  shows "started (gtrace (settled env sched chs outs tr)) = map ChainTask chs @ [ServiceTask]"
  using group_run_started [OF assms, of env sched chs outs]
  by (simp add: settled_def drain_def started_fold_returns)

lemma settled_extends:
  "\<exists>ext. gtrace (settled env sched chs outs tr) = tr @ ext
         \<and> (\<forall>e\<in>set ext. task_event e \<and> sink_event outs e)"
proof -
  let ?G = "group_run env sched chs outs tr"
  have "extends outs ?G (drain env ?G)"
  proof (cases "gctx_done ?G")
    case False
    then show ?thesis by (simp add: drain_def extends_refl)
  next
    case True
    have "extends outs (?G\<lparr>running := []\<rparr>) (fold (task_returns env) (running ?G) (?G\<lparr>running := []\<rparr>))"
      by (rule extends_fold_returns)
    then show ?thesis using True by (simp add: drain_def extends_def)
  qed
  with group_run_extends [of outs chs tr env sched]
  have "extends outs (init_group chs tr) (settled env sched chs outs tr)"
    unfolding settled_def by (rule extends_trans)
  then show ?thesis by (simp add: extends_def init_group_def)
qed

lemma settled_cancelled:
  "gctx_done (group_run env sched chs outs tr) \<Longrightarrow> running (settled env sched chs outs tr) = []"
  by (simp add: settled_def drain_def)

lemma settled_gerr_cancelled:
  assumes "\<forall>e\<in>set tr. startup_event e"
    and "gerr (settled env sched chs outs tr) = Some e"
  shows "running (settled env sched chs outs tr) = []"
proof (cases "gctx_done (group_run env sched chs outs tr)")
  case True
  then show ?thesis by (rule settled_cancelled)
next
  case False
  then have "settled env sched chs outs tr = group_run env sched chs outs tr"
    by (simp add: settled_def drain_def)
  with assms(2) group_run_inv [OF assms(1), of env sched chs outs] False
  show ?thesis by (simp add: group_inv_def)
qed

lemma settled_signal:
  assumes "\<forall>e\<in>set tr. startup_event e" and "Signal \<in> set sched"
  shows "running (settled env sched chs outs tr) = []"
proof -
  have "ctx_done (group_run env sched chs outs tr)"
    using assms(2) by (rule group_run_signal)
  with group_run_inv [OF assms(1), of env sched chs outs]
  have "gctx_done (group_run env sched chs outs tr)" by (simp add: group_inv_def)
  then show ?thesis by (rule settled_cancelled)
qed

lemma after_wait_supervise:
  "after_wait a dfr (supervise env sched chs outs tr) =
     (let D = settled env sched chs outs tr in
      if running D = []
      then (case gerr D of
              None \<Rightarrow> (a, gtrace D @ [WaitReturned None] @ dfr, Returned)
            | Some e \<Rightarrow> (a, gtrace D @ [WaitReturned (Some e), Fatal (''Application error: '' @ e)], Exited))
      else (a, gtrace D, Blocked))"
  by (simp add: after_wait_def supervise_def wait_def settled_def Let_def split: option.splits)

lemma Run_no_store:
  "Postgres (Outputs (config a)) = None \<Longrightarrow>
   Run env sched a =
     after_wait (a\<lparr>ctx := Some GroupCtx\<rparr>) []
       (supervise env sched (NewChains env (config a) (contracts a)) (console_outs (config a))
          (startup_trace (config a) (NewChains env (config a) (contracts a))))"
  by (simp add: Run_def Let_def startup_trace_def console_outs_def NewOutputs_def Add_def)

lemma Run_connect_fails:
  "Postgres (Outputs (config a)) = Some pg \<Longrightarrow> Connect env (URL pg) = Some e \<Longrightarrow>
   Run env sched a =
     (a\<lparr>ctx := Some GroupCtx\<rparr>,
      startup_trace (config a) (NewChains env (config a) (contracts a))
        @ [DbConstructed, DbConnect (URL pg) (Some e), Fatal ''Failed to connect Postgres''],
      Exited)"
  by (simp add: Run_def Let_def startup_trace_def NewOutputs_def Add_def)

lemma Run_migrate_fails:
  "Postgres (Outputs (config a)) = Some pg \<Longrightarrow> Connect env (URL pg) = None \<Longrightarrow>
   MigrateSchema env (NewChains env (config a) (contracts a)) = Some e \<Longrightarrow>
   Run env sched a =
     (a\<lparr>ctx := Some GroupCtx\<rparr>,
      startup_trace (config a) (NewChains env (config a) (contracts a))
        @ [DbConstructed, DbConnect (URL pg) None,
           DbMigrate (NewChains env (config a) (contracts a)) (Some e),
           Fatal ''Database.CreateSchemas failed''],
      Exited)"
  by (simp add: Run_def Let_def startup_trace_def NewOutputs_def Add_def)

lemma Run_store:
  "Postgres (Outputs (config a)) = Some pg \<Longrightarrow> Connect env (URL pg) = None \<Longrightarrow>
   MigrateSchema env (NewChains env (config a) (contracts a)) = None \<Longrightarrow>
   Run env sched a =
     after_wait (a\<lparr>ctx := Some GroupCtx\<rparr>) [DbClose]
       (supervise env sched (NewChains env (config a) (contracts a))
          (console_outs (config a) @ [StoreOut])
          (startup_trace (config a) (NewChains env (config a) (contracts a))
             @ store_trace (URL pg) (NewChains env (config a) (contracts a))))"
  by (simp add: Run_def Let_def startup_trace_def console_outs_def store_trace_def
        NewOutputs_def Add_def)

lemma startup_trace_events: "\<forall>e\<in>set (startup_trace cfg chs). startup_event e"
  by (simp add: startup_trace_def)

lemma store_trace_events: "\<forall>e\<in>set (startup_trace cfg chs @ store_trace url chs). startup_event e"
  by (simp add: startup_trace_def store_trace_def)

section \<open>The ways \<open>Run\<close> ends\<close>

lemma supervised_cases [consumes 1, case_names blocked returned failed]:
  assumes tr: "\<forall>e\<in>set tr. startup_event e"
  obtains
    (blocked) ext where
      "after_wait a dfr (supervise env sched chs outs tr) = (a, tr @ ext, Blocked)"
      "\<forall>x\<in>set ext. task_event x \<and> sink_event outs x"
      "\<forall>c r. TaskReturned (ChainTask c) r \<in> set ext \<longrightarrow> r = None"
      "started ext = map ChainTask chs @ [ServiceTask]"
      "mset (started ext) \<noteq> mset (returned ext)"
      "\<forall>r. TaskReturned ServiceTask r \<in> set ext \<longrightarrow> r = None"
      "GroupCancel \<notin> set ext"
      "Signal \<notin> set sched"
  | (returned) ext where
      "after_wait a dfr (supervise env sched chs outs tr)
         = (a, tr @ ext @ [WaitReturned None] @ dfr, Returned)"
      "\<forall>x\<in>set ext. task_event x \<and> sink_event outs x"
      "\<forall>c r. TaskReturned (ChainTask c) r \<in> set ext \<longrightarrow> r = None"
      "started ext = map ChainTask chs @ [ServiceTask]"
      "mset (started ext) = mset (returned ext)"
      "\<forall>r. TaskReturned ServiceTask r \<in> set ext \<longrightarrow> r = None"
      "GroupCancel \<notin> set ext"
  | (failed) ext e where
      "after_wait a dfr (supervise env sched chs outs tr)
         = (a, tr @ ext @ [WaitReturned (Some e), Fatal (''Application error: '' @ e)], Exited)"
      "\<forall>x\<in>set ext. task_event x \<and> sink_event outs x"
      "\<forall>c r. TaskReturned (ChainTask c) r \<in> set ext \<longrightarrow> r = None"
      "started ext = map ChainTask chs @ [ServiceTask]"
      "mset (started ext) = mset (returned ext)"
      "\<forall>r. TaskReturned ServiceTask r \<in> set ext \<longrightarrow> r = Some e"
      "TaskReturned ServiceTask (Some e) \<in> set ext"
      "GroupCancel \<in> set ext"
proof -
  let ?D = "settled env sched chs outs tr"
  obtain ext where ext: "gtrace ?D = tr @ ext"
    and kinds: "\<forall>x\<in>set ext. task_event x \<and> sink_event outs x"
    using settled_extends [of env sched chs outs tr] by blast
  have quiet: "x \<in> set tr \<Longrightarrow> \<not> task_event x" for x
    using tr startup_no_task by blast
  have mem: "task_event x \<Longrightarrow> x \<in> set (gtrace ?D) \<longleftrightarrow> x \<in> set ext" for x
    using quiet [of x] by (auto simp: ext)
  have I: "group_inv (mset (running ?D)) ?D" by (rule settled_inv [OF tr])
  have chain: "\<forall>c r. TaskReturned (ChainTask c) r \<in> set ext \<longrightarrow> r = None"
    using I mem by (simp add: group_inv_def)
  have service: "\<forall>r. TaskReturned ServiceTask r \<in> set ext \<longrightarrow> r = gerr ?D"
    using I mem by (auto simp: group_inv_def)
  have cancel: "GroupCancel \<in> set ext \<longleftrightarrow> gerr ?D \<noteq> None"
    using I mem [of GroupCancel] by (auto simp: group_inv_def)
  have origin: "gerr ?D = Some e \<Longrightarrow> TaskReturned ServiceTask (Some e) \<in> set ext" for e
    using I mem by (simp add: group_inv_def)
  have st: "started ext = map ChainTask chs @ [ServiceTask]"
    using settled_started [OF tr, of env sched chs outs] startup_started [OF tr]
    by (simp add: ext)
  have ac: "mset (started ext) = mset (returned ext) + mset (running ?D)"
    using settled_acct [OF tr, of env sched chs outs] startup_started [OF tr]
    by (simp add: acct_def ext)
  show ?thesis
  proof (cases "running ?D = []")
    case False
    have noerr: "gerr ?D = None"
    proof (cases "gerr ?D")
      case (Some e)
      then have "running ?D = []" by (rule settled_gerr_cancelled [OF tr])
      with False show ?thesis by simp
    qed simp
    have nosig: "Signal \<notin> set sched"
      using settled_signal [OF tr, of sched env chs outs] False by blast
    have r: "after_wait a dfr (supervise env sched chs outs tr) = (a, tr @ ext, Blocked)"
      using False by (simp add: after_wait_supervise ext)
    have m: "mset (started ext) \<noteq> mset (returned ext)"
      using ac False by simp
    have s: "\<forall>r. TaskReturned ServiceTask r \<in> set ext \<longrightarrow> r = None"
      using service noerr by simp
    have c: "GroupCancel \<notin> set ext"
      using cancel noerr by simp
    show ?thesis by (rule blocked [OF r kinds chain st m s c nosig])
  next
    case True
    show ?thesis
    proof (cases "gerr ?D")
      case None
      have r: "after_wait a dfr (supervise env sched chs outs tr)
              = (a, tr @ ext @ [WaitReturned None] @ dfr, Returned)"
        using True None by (simp add: after_wait_supervise ext)
      have m: "mset (started ext) = mset (returned ext)"
        using ac True by simp
      have s: "\<forall>r. TaskReturned ServiceTask r \<in> set ext \<longrightarrow> r = None"
        using service None by simp
      have c: "GroupCancel \<notin> set ext"
        using cancel None by simp
      show ?thesis by (rule returned [OF r kinds chain st m s c])
    next
      case (Some e)
      have r: "after_wait a dfr (supervise env sched chs outs tr)
              = (a, tr @ ext @ [WaitReturned (Some e), Fatal (''Application error: '' @ e)], Exited)"
        using True Some by (simp add: after_wait_supervise ext)
      have m: "mset (started ext) = mset (returned ext)"
        using ac True by simp
      have s: "\<forall>r. TaskReturned ServiceTask r \<in> set ext \<longrightarrow> r = Some e"
        using service Some by simp
      have c: "GroupCancel \<in> set ext"
        using cancel Some by simp
      show ?thesis by (rule failed [OF r kinds chain st m s origin [OF Some] c])
    qed
  qed
qed


lemma started_up_events: "started_up env a tr outs dfr \<Longrightarrow> \<forall>e\<in>set tr. startup_event e"
  by (auto simp: started_up_def Let_def startup_trace_def store_trace_def split: option.splits)

lemma Run_cases [case_names connect_fails migrate_fails blocked returned failed]:
  obtains
    (connect_fails) pg e where
      "Postgres (Outputs (config a)) = Some pg"
      "Connect env (URL pg) = Some e"
      "Run env sched a =
         (a\<lparr>ctx := Some GroupCtx\<rparr>,
          startup_trace (config a) (NewChains env (config a) (contracts a))
            @ [DbConstructed, DbConnect (URL pg) (Some e), Fatal ''Failed to connect Postgres''],
          Exited)"
  | (migrate_fails) pg e where
      "Postgres (Outputs (config a)) = Some pg"
      "Connect env (URL pg) = None"
      "MigrateSchema env (NewChains env (config a) (contracts a)) = Some e"
      "Run env sched a =
         (a\<lparr>ctx := Some GroupCtx\<rparr>,
          startup_trace (config a) (NewChains env (config a) (contracts a))
            @ [DbConstructed, DbConnect (URL pg) None,
               DbMigrate (NewChains env (config a) (contracts a)) (Some e),
               Fatal ''Database.CreateSchemas failed''],
          Exited)"
  | (blocked) tr outs dfr ext where
      "started_up env a tr outs dfr"
      "Run env sched a = (a\<lparr>ctx := Some GroupCtx\<rparr>, tr @ ext, Blocked)"
      "\<forall>x\<in>set ext. task_event x \<and> sink_event outs x"
      "\<forall>c r. TaskReturned (ChainTask c) r \<in> set ext \<longrightarrow> r = None"
      "started ext = map ChainTask (NewChains env (config a) (contracts a)) @ [ServiceTask]"
      "mset (started ext) \<noteq> mset (returned ext)"
      "\<forall>r. TaskReturned ServiceTask r \<in> set ext \<longrightarrow> r = None"
      "GroupCancel \<notin> set ext"
      "Signal \<notin> set sched"
  | (returned) tr outs dfr ext where
      "started_up env a tr outs dfr"
      "Run env sched a
         = (a\<lparr>ctx := Some GroupCtx\<rparr>, tr @ ext @ [WaitReturned None] @ dfr, Returned)"
      "\<forall>x\<in>set ext. task_event x \<and> sink_event outs x"
      "\<forall>c r. TaskReturned (ChainTask c) r \<in> set ext \<longrightarrow> r = None"
      "started ext = map ChainTask (NewChains env (config a) (contracts a)) @ [ServiceTask]"
      "mset (started ext) = mset (returned ext)"
      "\<forall>r. TaskReturned ServiceTask r \<in> set ext \<longrightarrow> r = None"
      "GroupCancel \<notin> set ext"
  | (failed) tr outs dfr ext e where
      "started_up env a tr outs dfr"
      "Run env sched a
         = (a\<lparr>ctx := Some GroupCtx\<rparr>,
            tr @ ext @ [WaitReturned (Some e), Fatal (''Application error: '' @ e)], Exited)"
      "\<forall>x\<in>set ext. task_event x \<and> sink_event outs x"
      "\<forall>c r. TaskReturned (ChainTask c) r \<in> set ext \<longrightarrow> r = None"
      "started ext = map ChainTask (NewChains env (config a) (contracts a)) @ [ServiceTask]"
      "mset (started ext) = mset (returned ext)"
      "\<forall>r. TaskReturned ServiceTask r \<in> set ext \<longrightarrow> r = Some e"
      "TaskReturned ServiceTask (Some e) \<in> set ext"
      "GroupCancel \<in> set ext"
proof -
  let ?cfg = "config a"
  let ?chs = "NewChains env ?cfg (contracts a)"
  let ?a = "a\<lparr>ctx := Some GroupCtx\<rparr>"
  note ends = that
  have sup: thesis
    if up: "started_up env a tr outs dfr"
      and run: "Run env sched a = after_wait ?a dfr (supervise env sched ?chs outs tr)"
    for tr outs dfr
    using started_up_events [OF up]
  proof (cases rule: supervised_cases [where a = "?a" and dfr = dfr and env = env
      and sched = sched and chs = "?chs" and outs = outs])
    case (blocked ext)
    show ?thesis
      by (rule ends(3) [OF up trans [OF run blocked(1)] blocked(2-8)])
  next
    case (returned ext)
    show ?thesis
      by (rule ends(4) [OF up trans [OF run returned(1)] returned(2-7)])
  next
    case (failed ext e)
    show ?thesis
      by (rule ends(5) [OF up trans [OF run failed(1)] failed(2-8)])
  qed
  show ?thesis
  proof (cases "Postgres (Outputs ?cfg)")
    case None
    have "started_up env a (startup_trace ?cfg ?chs) (console_outs ?cfg) []"
      using None by (simp add: started_up_def)
    then show ?thesis using Run_no_store [OF None] by (rule sup)
  next
    case (Some pg)
    show ?thesis
    proof (cases "Connect env (URL pg)")
      case (Some e)
      show ?thesis
        by (rule ends(1) [OF \<open>Postgres (Outputs ?cfg) = Some pg\<close> Some])
           (rule Run_connect_fails [OF \<open>Postgres (Outputs ?cfg) = Some pg\<close> Some])
    next
      case None
      note conn = None
      show ?thesis
      proof (cases "MigrateSchema env ?chs")
        case (Some e)
        show ?thesis
          by (rule ends(2) [OF \<open>Postgres (Outputs ?cfg) = Some pg\<close> conn Some])
             (rule Run_migrate_fails [OF \<open>Postgres (Outputs ?cfg) = Some pg\<close> conn Some])
      next
        case None
        have "started_up env a (startup_trace ?cfg ?chs @ store_trace (URL pg) ?chs)
                (console_outs ?cfg @ [StoreOut]) [DbClose]"
          using \<open>Postgres (Outputs ?cfg) = Some pg\<close> conn None by (simp add: started_up_def)
        then show ?thesis
          using Run_store [OF \<open>Postgres (Outputs ?cfg) = Some pg\<close> conn None] by (rule sup)
      qed
    qed
  qed
qed

section \<open>The claims\<close>

lemma started_up_dfr: "started_up env a tr outs dfr \<Longrightarrow> dfr = [] \<or> dfr = [DbClose]"
  by (auto simp: started_up_def Let_def split: option.splits)

lemma startup_trace_quiet: "\<forall>e\<in>set (startup_trace cfg chs). startup_event e"
  by (simp add: startup_trace_def)

lemma startup_only:
  assumes "\<forall>e\<in>set tr. startup_event e"
  shows "TaskReturned t r \<notin> set tr" "GroupCancel \<notin> set tr" "WaitReturned r \<notin> set tr"
    "Fatal m \<notin> set tr" "TaskStarted t \<notin> set tr" "Delivered d c p \<notin> set tr"
    "DbClose \<notin> set tr" "ShutdownSignal \<notin> set tr"
  using assms by (auto dest: bspec)

lemma task_only:
  assumes "\<forall>x\<in>set ext. task_event x \<and> sink_event outs x"
  shows "WaitReturned r \<notin> set ext" "Fatal m \<notin> set ext" "DbClose \<notin> set ext"
    "OutputAdded d \<notin> set ext" "DbConstructed \<notin> set ext" "DbConnect u r \<notin> set ext"
    "DbMigrate cs r \<notin> set ext" "ChainsConstructed cs \<notin> set ext"
  using assms by (auto dest: bspec)

lemma chain_return_nil:
  assumes "TaskReturned (ChainTask ch) r \<in> set (run_trace (Run env sched a))"
  shows "r = None"
proof (cases rule: Run_cases [where a = a and env = env and sched = sched])
  case (connect_fails pg e)
  from assms show ?thesis
    using startup_only(1) [OF startup_trace_quiet]
    by (simp add: run_trace_def connect_fails(3))
next
  case (migrate_fails pg e)
  from assms show ?thesis
    using startup_only(1) [OF startup_trace_quiet]
    by (simp add: run_trace_def migrate_fails(4))
next
  case (blocked tr outs dfr ext)
  from assms show ?thesis
    using startup_only(1) [OF started_up_events [OF blocked(1)]] blocked(4)
    by (simp add: run_trace_def blocked(2))
next
  case (returned tr outs dfr ext)
  from assms show ?thesis
    using startup_only(1) [OF started_up_events [OF returned(1)]] returned(4)
      started_up_dfr [OF returned(1)]
    by (auto simp: run_trace_def returned(2))
next
  case (failed tr outs dfr ext e)
  from assms show ?thesis
    using startup_only(1) [OF started_up_events [OF failed(1)]] failed(4)
    by (simp add: run_trace_def failed(2))
qed


lemma wait_failure_origin:
  assumes "WaitReturned (Some e) \<in> set (run_trace (Run env sched a))"
  shows "TaskReturned ServiceTask (Some e) \<in> set (run_trace (Run env sched a))"
proof (cases rule: Run_cases [where a = a and env = env and sched = sched])
  case (connect_fails pg e')
  from assms show ?thesis
    using startup_only(3) [OF startup_trace_quiet]
    by (simp add: run_trace_def connect_fails(3))
next
  case (migrate_fails pg e')
  from assms show ?thesis
    using startup_only(3) [OF startup_trace_quiet]
    by (simp add: run_trace_def migrate_fails(4))
next
  case (blocked tr outs dfr ext)
  from assms show ?thesis
    using startup_only(3) [OF started_up_events [OF blocked(1)]] task_only(1) [OF blocked(3)]
    by (simp add: run_trace_def blocked(2))
next
  case (returned tr outs dfr ext)
  from assms show ?thesis
    using startup_only(3) [OF started_up_events [OF returned(1)]] task_only(1) [OF returned(3)]
      started_up_dfr [OF returned(1)]
    by (auto simp: run_trace_def returned(2))
next
  case (failed tr outs dfr ext e')
  from assms have "e = e'"
    using startup_only(3) [OF started_up_events [OF failed(1)]] task_only(1) [OF failed(3)]
    by (simp add: run_trace_def failed(2))
  then show ?thesis
    using failed(8) by (simp add: run_trace_def failed(2))
qed

lemma group_cancel_origin:
  assumes "GroupCancel \<in> set (run_trace (Run env sched a))"
  shows "\<exists>e. TaskReturned ServiceTask (Some e) \<in> set (run_trace (Run env sched a))"
proof (cases rule: Run_cases [where a = a and env = env and sched = sched])
  case (connect_fails pg e')
  from assms show ?thesis
    using startup_only(2) [OF startup_trace_quiet]
    by (simp add: run_trace_def connect_fails(3))
next
  case (migrate_fails pg e')
  from assms show ?thesis
    using startup_only(2) [OF startup_trace_quiet]
    by (simp add: run_trace_def migrate_fails(4))
next
  case (blocked tr outs dfr ext)
  from assms show ?thesis
    using startup_only(2) [OF started_up_events [OF blocked(1)]] blocked(8)
    by (simp add: run_trace_def blocked(2))
next
  case (returned tr outs dfr ext)
  from assms show ?thesis
    using startup_only(2) [OF started_up_events [OF returned(1)]] returned(8)
      started_up_dfr [OF returned(1)]
    by (auto simp: run_trace_def returned(2))
next
  case (failed tr outs dfr ext e')
  have "TaskReturned ServiceTask (Some e') \<in> set (run_trace (Run env sched a))"
    using failed(8) by (simp add: run_trace_def failed(2))
  then show ?thesis ..
qed

text \<open>
  C1. The function a chain task runs returns \<open>nil\<close> whatever its \<open>RunLoop\<close> ended
  with: every chain task recorded in a trace of \<open>Run\<close> returned \<open>nil\<close>; a failure
  returned by \<open>Wait\<close> is the failure the service task returned; and the group
  cancels its context only in a run in which the service task returned a failure.
\<close>

theorem chain_task_returns_nil:
  "snd (chain_task env c cancelled) = None
   \<and> (\<forall>ch r. TaskReturned (ChainTask ch) r \<in> set (run_trace (Run env sched a)) \<longrightarrow> r = None)
   \<and> (\<forall>e. WaitReturned (Some e) \<in> set (run_trace (Run env sched a))
          \<longrightarrow> TaskReturned ServiceTask (Some e) \<in> set (run_trace (Run env sched a)))
   \<and> (GroupCancel \<in> set (run_trace (Run env sched a))
          \<longrightarrow> (\<exists>e. TaskReturned ServiceTask (Some e) \<in> set (run_trace (Run env sched a))))"
proof (intro conjI allI impI)
  show "snd (chain_task env c cancelled) = None"
    by (simp add: chain_task_def Let_def)
next
  fix ch r
  assume "TaskReturned (ChainTask ch) r \<in> set (run_trace (Run env sched a))"
  then show "r = None" by (rule chain_return_nil)
next
  fix e
  assume "WaitReturned (Some e) \<in> set (run_trace (Run env sched a))"
  then show "TaskReturned ServiceTask (Some e) \<in> set (run_trace (Run env sched a))"
    by (rule wait_failure_origin)
next
  assume "GroupCancel \<in> set (run_trace (Run env sched a))"
  then show "\<exists>e. TaskReturned ServiceTask (Some e) \<in> set (run_trace (Run env sched a))"
    by (rule group_cancel_origin)
qed

theorem chain_task_returns_nil_witness:
  "LoopEnded (Chain ''mainnet'') (Some ''rpc connection lost'')
     \<in> set (run_trace (Run env_healthy [Spawn, Finish 0, Spawn, Spawn, Finish 1] (app_of cfg_console)))
   \<and> TaskReturned (ChainTask (Chain ''mainnet'')) None
     \<in> set (run_trace (Run env_healthy [Spawn, Finish 0, Spawn, Spawn, Finish 1] (app_of cfg_console)))
   \<and> GroupCancel
     \<in> set (run_trace (Run env_healthy [Spawn, Finish 0, Spawn, Spawn, Finish 1] (app_of cfg_console)))
   \<and> WaitReturned (Some ''listen failed'')
     \<in> set (run_trace (Run env_healthy [Spawn, Finish 0, Spawn, Spawn, Finish 1] (app_of cfg_console)))
   \<and> TaskReturned ServiceTask (Some ''listen failed'')
     \<in> set (run_trace (Run env_healthy [Spawn, Finish 0, Spawn, Spawn, Finish 1] (app_of cfg_console)))"
proof -
  let ?T = "run_trace (Run env_healthy [Spawn, Finish 0, Spawn, Spawn, Finish 1] (app_of cfg_console))"
  have l: "LoopEnded (Chain ''mainnet'') (Some ''rpc connection lost'') \<in> set ?T"
    by code_simp
  have c: "TaskReturned (ChainTask (Chain ''mainnet'')) None \<in> set ?T"
    by code_simp
  have g: "GroupCancel \<in> set ?T"
    by code_simp
  have w: "WaitReturned (Some ''listen failed'') \<in> set ?T"
    by code_simp
  have "TaskReturned ServiceTask (Some ''listen failed'') \<in> set ?T"
    using chain_task_returns_nil
      [of env_healthy "Chain ''mainnet''" False "[Spawn, Finish 0, Spawn, Spawn, Finish 1]"
          "app_of cfg_console"] w
    by blast
  with l c g w show ?thesis by simp
qed


lemma service_nil_ends:
  assumes "TaskReturned ServiceTask None \<in> set (run_trace (Run env sched a))"
  shows "run_outcome (Run env sched a) \<noteq> Exited
       \<and> (\<forall>m. Fatal m \<notin> set (run_trace (Run env sched a)))
       \<and> (\<forall>r. WaitReturned r \<in> set (run_trace (Run env sched a)) \<longrightarrow> r = None)
       \<and> (Signal \<in> set sched
            \<or> mset (started (run_trace (Run env sched a))) = mset (returned (run_trace (Run env sched a)))
          \<longrightarrow> run_outcome (Run env sched a) = Returned
              \<and> WaitReturned None \<in> set (run_trace (Run env sched a)))"
proof (cases rule: Run_cases [where a = a and env = env and sched = sched])
  case (connect_fails pg e')
  from assms have False
    using startup_only(1) [OF startup_trace_quiet]
    by (auto simp: run_trace_def connect_fails(3))
  then show ?thesis ..
next
  case (migrate_fails pg e')
  from assms have False
    using startup_only(1) [OF startup_trace_quiet]
    by (auto simp: run_trace_def migrate_fails(4))
  then show ?thesis ..
next
  case (blocked tr outs dfr ext)
  note q = started_up_events [OF blocked(1)]
  have "run_outcome (Run env sched a) \<noteq> Exited"
    by (simp add: run_outcome_def blocked(2))
  moreover have "\<forall>m. Fatal m \<notin> set (run_trace (Run env sched a))"
    using startup_only(4) [OF q] task_only(2) [OF blocked(3)]
    by (simp add: run_trace_def blocked(2))
  moreover have "\<forall>r. WaitReturned r \<notin> set (run_trace (Run env sched a))"
    using startup_only(3) [OF q] task_only(1) [OF blocked(3)]
    by (simp add: run_trace_def blocked(2))
  moreover have "mset (started (run_trace (Run env sched a)))
                   \<noteq> mset (returned (run_trace (Run env sched a)))"
    using startup_started [OF q] blocked(6) by (simp add: run_trace_def blocked(2))
  ultimately show ?thesis using blocked(9) by blast
next
  case (returned tr outs dfr ext)
  note q = started_up_events [OF returned(1)]
  have "run_outcome (Run env sched a) = Returned"
    by (simp add: run_outcome_def returned(2))
  moreover have "\<forall>m. Fatal m \<notin> set (run_trace (Run env sched a))"
    using startup_only(4) [OF q] task_only(2) [OF returned(3)] started_up_dfr [OF returned(1)]
    by (auto simp: run_trace_def returned(2))
  moreover have "\<forall>r. WaitReturned r \<in> set (run_trace (Run env sched a)) \<longrightarrow> r = None"
    using startup_only(3) [OF q] task_only(1) [OF returned(3)] started_up_dfr [OF returned(1)]
    by (auto simp: run_trace_def returned(2))
  moreover have "WaitReturned None \<in> set (run_trace (Run env sched a))"
    by (simp add: run_trace_def returned(2))
  ultimately show ?thesis by simp
next
  case (failed tr outs dfr ext e')
  from assms have False
    using startup_only(1) [OF started_up_events [OF failed(1)]] failed(7)
    by (auto simp: run_trace_def failed(2))
  then show ?thesis ..
qed


text \<open>
  C7. When the termination signal has been delivered and the service task has
  returned \<open>nil\<close>, \<open>Wait\<close> returns \<open>nil\<close> and \<open>Run\<close> returns, with no fatal exit.
\<close>

theorem shutdown_returns_normally:
  assumes "Signal \<in> set sched"
    and "TaskReturned ServiceTask None \<in> set (run_trace (Run env sched a))"
  shows "run_outcome (Run env sched a) = Returned
       \<and> WaitReturned None \<in> set (run_trace (Run env sched a))
       \<and> (\<forall>m. Fatal m \<notin> set (run_trace (Run env sched a)))"
  using service_nil_ends [OF assms(2)] assms(1) by simp




theorem shutdown_returns_normally_witness:
  "run_outcome (Run env_healthy [Spawn, Emit 0 ''transfer'', Signal] (app_of cfg_console)) = Returned
   \<and> WaitReturned None
        \<in> set (run_trace (Run env_healthy [Spawn, Emit 0 ''transfer'', Signal] (app_of cfg_console)))
   \<and> (\<forall>m. Fatal m
        \<notin> set (run_trace (Run env_healthy [Spawn, Emit 0 ''transfer'', Signal] (app_of cfg_console))))"
proof -
  have s: "Signal \<in> set [Spawn, Emit 0 ''transfer'', Signal]"
    by simp
  have n: "TaskReturned ServiceTask None
             \<in> set (run_trace (Run env_healthy [Spawn, Emit 0 ''transfer'', Signal] (app_of cfg_console)))"
    by code_simp
  show ?thesis by (rule shutdown_returns_normally [OF s n])
qed

text \<open>
  C3. With a store configured, whatever starts a task, registers the store or
  delivers an event to the store happens in a run in which \<open>Connect\<close> and
  \<open>MigrateSchema\<close> have both succeeded, and after them: the trace holds the
  successful \<open>Connect\<close>, the successful \<open>MigrateSchema\<close> and the registration of the
  store in a row, and no task start, no delivery and no registration of the store
  comes before them.
\<close>

theorem store_ready_before_tasks:
  assumes "Postgres (Outputs (config a)) = Some pg"
    and "x \<in> set (run_trace (Run env sched a))"
    and "(\<exists>t. x = TaskStarted t) \<or> (\<exists>c p. x = Delivered StoreOut c p) \<or> x = OutputAdded StoreOut"
  shows "Connect env (URL pg) = None
       \<and> MigrateSchema env (NewChains env (config a) (contracts a)) = None
       \<and> (\<exists>pre post.
            run_trace (Run env sched a)
              = pre @ [DbConnect (URL pg) None,
                       DbMigrate (NewChains env (config a) (contracts a)) None,
                       OutputAdded StoreOut] @ post
            \<and> (\<forall>y\<in>set pre. (\<forall>t. y \<noteq> TaskStarted t) \<and> (\<forall>d c p. y \<noteq> Delivered d c p)
                              \<and> y \<noteq> OutputAdded StoreOut))"
proof -
  let ?chs = "NewChains env (config a) (contracts a)"
  let ?pre = "startup_trace (config a) ?chs @ [DbConstructed]"
  have pre: "\<forall>y\<in>set ?pre. (\<forall>t. y \<noteq> TaskStarted t) \<and> (\<forall>d c p. y \<noteq> Delivered d c p)
                              \<and> y \<noteq> OutputAdded StoreOut"
    by (simp add: startup_trace_def)
  have up: "Connect env (URL pg) = None \<and> MigrateSchema env ?chs = None
            \<and> tr = ?pre @ [DbConnect (URL pg) None, DbMigrate ?chs None, OutputAdded StoreOut]"
    if "started_up env a tr outs dfr" for tr outs dfr
    using that assms(1) by (simp add: started_up_def store_trace_def Let_def)
  have fin: ?thesis
    if "started_up env a tr outs dfr" and "run_trace (Run env sched a) = tr @ rest"
    for tr outs dfr rest
  proof -
    from up [OF that(1)] have
      "run_trace (Run env sched a)
         = ?pre @ [DbConnect (URL pg) None, DbMigrate ?chs None, OutputAdded StoreOut] @ rest"
      using that(2) by simp
    with pre up [OF that(1)] show ?thesis by blast
  qed
  show ?thesis
  proof (cases rule: Run_cases [where a = a and env = env and sched = sched])
    case (connect_fails pg' e)
    from assms(2,3) have False
      by (auto simp: run_trace_def connect_fails(3) startup_trace_def)
    then show ?thesis ..
  next
    case (migrate_fails pg' e)
    from assms(2,3) have False
      by (auto simp: run_trace_def migrate_fails(4) startup_trace_def)
    then show ?thesis ..
  next
    case (blocked tr outs dfr ext)
    show ?thesis
      by (rule fin [OF blocked(1)]) (simp add: run_trace_def blocked(2))
  next
    case (returned tr outs dfr ext)
    show ?thesis
      by (rule fin [OF returned(1)]) (simp add: run_trace_def returned(2))
  next
    case (failed tr outs dfr ext e)
    show ?thesis
      by (rule fin [OF failed(1)]) (simp add: run_trace_def failed(2))
  qed
qed

theorem store_ready_before_tasks_witness:
  "Connect env_healthy ''postgres://db'' = None
   \<and> MigrateSchema env_healthy [Chain ''mainnet'', Chain ''testnet''] = None
   \<and> (\<exists>pre post.
        run_trace (Run env_healthy [Spawn, Emit 0 ''transfer''] (app_of cfg_store))
          = pre @ [DbConnect ''postgres://db'' None,
                   DbMigrate [Chain ''mainnet'', Chain ''testnet''] None,
                   OutputAdded StoreOut] @ post
        \<and> (\<forall>y\<in>set pre. (\<forall>t. y \<noteq> TaskStarted t) \<and> (\<forall>d c p. y \<noteq> Delivered d c p)
                          \<and> y \<noteq> OutputAdded StoreOut))"
proof -
  have p: "Postgres (Outputs (config (app_of cfg_store))) = Some \<lparr>URL = ''postgres://db''\<rparr>"
    by (simp add: app_of_def cfg_store_def)
  have m: "Delivered StoreOut (Chain ''mainnet'') ''transfer''
             \<in> set (run_trace (Run env_healthy [Spawn, Emit 0 ''transfer''] (app_of cfg_store)))"
    by code_simp
  have k: "(\<exists>t. Delivered StoreOut (Chain ''mainnet'') ''transfer'' = TaskStarted t)
           \<or> (\<exists>c p. Delivered StoreOut (Chain ''mainnet'') ''transfer'' = Delivered StoreOut c p)
           \<or> Delivered StoreOut (Chain ''mainnet'') ''transfer'' = OutputAdded StoreOut"
    by simp
  have c: "NewChains env_healthy (config (app_of cfg_store)) (contracts (app_of cfg_store))
             = [Chain ''mainnet'', Chain ''testnet'']"
    by (simp add: env_healthy_def)
  from store_ready_before_tasks [OF p m k] show ?thesis
    by (simp add: c)
qed

lemma started_up_part: "started_up env a tr outs dfr \<Longrightarrow> tr = startup_part env a"
  by (auto simp: started_up_def startup_part_def store_trace_def Let_def split: option.splits)

lemma task_not_startup: "task_event x \<Longrightarrow> \<not> startup_event x"
  by (cases x) simp_all

lemma Run_startup_events:
  assumes "startup_event x"
  shows "x \<in> set (run_trace (Run env sched a)) \<longleftrightarrow> x \<in> set (startup_part env a)"
proof (cases rule: Run_cases [where a = a and env = env and sched = sched])
  case (connect_fails pg e)
  show ?thesis
    using assms by (auto simp: run_trace_def connect_fails startup_part_def Let_def)
next
  case (migrate_fails pg e)
  show ?thesis
    using assms by (auto simp: run_trace_def migrate_fails startup_part_def Let_def)
next
  case (blocked tr outs dfr ext)
  have "x \<notin> set ext" using assms blocked(3) task_not_startup by blast
  then show ?thesis
    by (simp add: run_trace_def blocked(2) started_up_part [OF blocked(1)])
next
  case (returned tr outs dfr ext)
  have "x \<notin> set ext" using assms returned(3) task_not_startup by blast
  moreover have "x \<notin> set dfr" using assms started_up_dfr [OF returned(1)] by auto
  moreover have "x \<noteq> WaitReturned None" using assms by auto
  ultimately show ?thesis
    by (simp add: run_trace_def returned(2) started_up_part [OF returned(1)])
next
  case (failed tr outs dfr ext e)
  have "x \<notin> set ext" using assms failed(3) task_not_startup by blast
  moreover have "x \<noteq> WaitReturned (Some e)" "x \<noteq> Fatal (''Application error: '' @ e)"
    using assms by auto
  ultimately show ?thesis
    by (simp add: run_trace_def failed(2) started_up_part [OF failed(1)])
qed




text \<open>
  C10. With the console disabled and no Postgres section, \<open>Run\<close> registers no
  destination and still starts every chain task and the service task; no event is
  delivered to any destination; and the only fatal exit left is the one after a
  failure of the service task.
\<close>

theorem silent_configuration_runs:
  assumes "Console (Outputs (config a)) = Some c"
    and "Disabled c"
    and "Postgres (Outputs (config a)) = None"
  shows "(\<forall>d. OutputAdded d \<notin> set (run_trace (Run env sched a)))
       \<and> (\<forall>d ch p. Delivered d ch p \<notin> set (run_trace (Run env sched a)))
       \<and> started (run_trace (Run env sched a))
           = map ChainTask (NewChains env (config a) (contracts a)) @ [ServiceTask]
       \<and> (\<forall>m. Fatal m \<in> set (run_trace (Run env sched a))
               \<longrightarrow> (\<exists>e. TaskReturned ServiceTask (Some e) \<in> set (run_trace (Run env sched a))))"
proof -
  have off: "\<not> console_enabled (config a)"
    using assms(1,2) by (simp add: console_enabled_def)
  have added: "OutputAdded d \<notin> set (run_trace (Run env sched a))" for d
    using assms(3) off
    by (simp add: Run_startup_events startup_part_def startup_trace_def Let_def)
  have up: "outs = [] \<and> dfr = []" if "started_up env a tr outs dfr" for tr outs dfr
    using that assms(3) off by (simp add: started_up_def Let_def console_outs_def)
  have sink: "Delivered d ch p \<notin> set ext"
    if "started_up env a tr outs dfr" and "\<forall>x\<in>set ext. task_event x \<and> sink_event outs x"
    for tr outs dfr ext d ch p
  proof
    assume "Delivered d ch p \<in> set ext"
    with that(2) have "sink_event outs (Delivered d ch p)" by blast
    with up [OF that(1)] show False by simp
  qed
  have rest:
    "(\<forall>d ch p. Delivered d ch p \<notin> set (run_trace (Run env sched a)))
     \<and> started (run_trace (Run env sched a))
         = map ChainTask (NewChains env (config a) (contracts a)) @ [ServiceTask]
     \<and> (\<forall>m. Fatal m \<in> set (run_trace (Run env sched a))
             \<longrightarrow> (\<exists>e. TaskReturned ServiceTask (Some e) \<in> set (run_trace (Run env sched a))))"
  proof (cases rule: Run_cases [where a = a and env = env and sched = sched])
    case (connect_fails pg e)
    with assms(3) show ?thesis by simp
  next
    case (migrate_fails pg e)
    with assms(3) show ?thesis by simp
  next
    case (blocked tr outs dfr ext)
    note q = started_up_events [OF blocked(1)]
    show ?thesis
      using startup_only(4,6) [OF q] task_only(2) [OF blocked(3)] sink [OF blocked(1,3)]
        startup_started [OF q] blocked(5)
      by (simp add: run_trace_def blocked(2))
  next
    case (returned tr outs dfr ext)
    note q = started_up_events [OF returned(1)]
    show ?thesis
      using startup_only(4,6) [OF q] task_only(2) [OF returned(3)] sink [OF returned(1,3)]
        startup_started [OF q] returned(5) up [OF returned(1)]
      by (simp add: run_trace_def returned(2))
  next
    case (failed tr outs dfr ext e)
    note q = started_up_events [OF failed(1)]
    have "TaskReturned ServiceTask (Some e) \<in> set (run_trace (Run env sched a))"
      using failed(8) by (simp add: run_trace_def failed(2))
    then have "\<exists>e. TaskReturned ServiceTask (Some e) \<in> set (run_trace (Run env sched a))" ..
    then show ?thesis
      using startup_only(6) [OF q] sink [OF failed(1,3)] startup_started [OF q] failed(5)
      by (simp add: run_trace_def failed(2))
  qed
  from added rest show ?thesis by simp
qed

theorem silent_configuration_runs_witness:
  "Dispatched (Chain ''mainnet'') ''transfer''
     \<in> set (run_trace (Run env_healthy [Spawn, Emit 0 ''transfer'', Signal] (app_of cfg_silent)))
   \<and> (\<forall>d ch p. Delivered d ch p
        \<notin> set (run_trace (Run env_healthy [Spawn, Emit 0 ''transfer'', Signal] (app_of cfg_silent))))
   \<and> started (run_trace (Run env_healthy [Spawn, Emit 0 ''transfer'', Signal] (app_of cfg_silent)))
       = [ChainTask (Chain ''mainnet''), ChainTask (Chain ''testnet''), ServiceTask]
   \<and> run_outcome (Run env_healthy [Spawn, Emit 0 ''transfer'', Signal] (app_of cfg_silent)) = Returned"
proof -
  let ?R = "Run env_healthy [Spawn, Emit 0 ''transfer'', Signal] (app_of cfg_silent)"
  have c: "Console (Outputs (config (app_of cfg_silent))) = Some \<lparr>Disabled = True\<rparr>"
    by (simp add: app_of_def cfg_silent_def)
  have d: "Disabled \<lparr>Disabled = True\<rparr>"
    by simp
  have p: "Postgres (Outputs (config (app_of cfg_silent))) = None"
    by (simp add: app_of_def cfg_silent_def)
  have n: "NewChains env_healthy (config (app_of cfg_silent)) (contracts (app_of cfg_silent))
             = [Chain ''mainnet'', Chain ''testnet'']"
    by (simp add: env_healthy_def)
  have e: "Dispatched (Chain ''mainnet'') ''transfer'' \<in> set (run_trace ?R)"
    by code_simp
  have o: "run_outcome ?R = Returned"
    by code_simp
  from silent_configuration_runs [OF c d p, of env_healthy "[Spawn, Emit 0 ''transfer'', Signal]"]
  have "(\<forall>d ch p. Delivered d ch p \<notin> set (run_trace ?R))
      \<and> started (run_trace ?R) = [ChainTask (Chain ''mainnet''), ChainTask (Chain ''testnet''), ServiceTask]"
    by (simp add: n)
  with e o show ?thesis by simp
qed

text \<open>
  C5, as the code has it. When \<open>Connect\<close> fails, \<open>Run\<close> exits fatally at that step:
  the chains have been constructed by \<open>NewChains\<close> before it, no task has been
  started, and nothing follows the fatal log call.
\<close>

theorem connect_failure_exits_before_tasks:
  assumes "Postgres (Outputs (config a)) = Some pg"
    and "Connect env (URL pg) = Some e"
  shows "run_outcome (Run env sched a) = Exited
       \<and> run_trace (Run env sched a)
           = [ScopeCreated, ShutdownArmed, GroupCreated]
             @ (if console_enabled (config a) then [OutputAdded ConsoleOut] else [])
             @ [HandlerCreated, ChainsConstructed (NewChains env (config a) (contracts a)),
                DbConstructed, DbConnect (URL pg) (Some e), Fatal ''Failed to connect Postgres'']
       \<and> (\<forall>t. TaskStarted t \<notin> set (run_trace (Run env sched a)))"
  by (simp add: Run_connect_fails [OF assms] run_outcome_def run_trace_def startup_trace_def)

theorem connect_failure_exits_before_tasks_witness:
  "run_outcome (Run env_db_down [Spawn, Signal] (app_of cfg_store)) = Exited
   \<and> (\<forall>t. TaskStarted t \<notin> set (run_trace (Run env_db_down [Spawn, Signal] (app_of cfg_store))))"
proof -
  have p: "Postgres (Outputs (config (app_of cfg_store))) = Some \<lparr>URL = ''postgres://db''\<rparr>"
    by (simp add: app_of_def cfg_store_def)
  have c: "Connect env_db_down (URL \<lparr>URL = ''postgres://db''\<rparr>) = Some ''connection refused''"
    by (simp add: env_db_down_def)
  from connect_failure_exits_before_tasks [OF p c, of "[Spawn, Signal]"] show ?thesis
    by simp
qed

text \<open>
  C5, as the spec has it, fails: with an unreachable store the chains are constructed
  before \<open>Connect\<close> is called.
\<close>

theorem chains_constructed_before_connect_counterexample:
  "Connect env_db_down ''postgres://db'' = Some ''connection refused''
   \<and> run_trace (Run env_db_down [] (app_of cfg_store))
       = [ScopeCreated, ShutdownArmed, GroupCreated, OutputAdded ConsoleOut, HandlerCreated,
          ChainsConstructed [Chain ''mainnet'', Chain ''testnet''],
          DbConstructed, DbConnect ''postgres://db'' (Some ''connection refused''),
          Fatal ''Failed to connect Postgres'']"
  by code_simp

text \<open>
  C4 at a failing input: the store is connected, migrated and registered, the service
  task returns a failure, \<open>Wait\<close> returns it and \<open>Run\<close> exits through \<open>Fatalf\<close>; the
  deferred \<open>db.Close\<close> has not run.
\<close>

theorem store_left_open_on_failure:
  "run_outcome (Run env_healthy [Spawn, Spawn, Spawn, Finish 2] (app_of cfg_store)) = Exited
   \<and> run_trace (Run env_healthy [Spawn, Spawn, Spawn, Finish 2] (app_of cfg_store))
       = [ScopeCreated, ShutdownArmed, GroupCreated, OutputAdded ConsoleOut, HandlerCreated,
          ChainsConstructed [Chain ''mainnet'', Chain ''testnet''],
          DbConstructed, DbConnect ''postgres://db'' None,
          DbMigrate [Chain ''mainnet'', Chain ''testnet''] None, OutputAdded StoreOut,
          TaskStarted (ChainTask (Chain ''mainnet'')),
          TaskStarted (ChainTask (Chain ''testnet'')),
          ServerConstructed, TaskStarted ServiceTask,
          TaskReturned ServiceTask (Some ''listen failed''), GroupCancel,
          LoopEnded (Chain ''mainnet'') None, TaskReturned (ChainTask (Chain ''mainnet'')) None,
          LoopEnded (Chain ''testnet'') None, TaskReturned (ChainTask (Chain ''testnet'')) None,
          WaitReturned (Some ''listen failed''),
          Fatal ''Application error: listen failed'']
   \<and> count_list (run_trace (Run env_healthy [Spawn, Spawn, Spawn, Finish 2] (app_of cfg_store)))
        DbClose = 0"
  by code_simp

text \<open>
  C8. \<open>NewApp\<close> leaves \<open>ctx\<close> unset, so \<open>Context()\<close> of the app it returns is \<open>nil\<close>;
  \<open>Run\<close> stores the group's context in it.
\<close>

theorem context_nil_before_run:
  "(NewApp env configPath = Ok a \<longrightarrow> Context a = None)
   \<and> Context (run_app (Run env' sched a')) = Some GroupCtx"
proof
  show "NewApp env configPath = Ok a \<longrightarrow> Context a = None"
    by (cases "fst (NewProduction env)")
       (auto simp: NewApp_def Sugar_def Context_def split: sum.splits)
next
  show "Context (run_app (Run env' sched a')) = Some GroupCtx"
  proof (cases rule: Run_cases [where a = a' and env = env' and sched = sched])
    case (connect_fails pg e)
    show ?thesis by (simp add: run_app_def Context_def connect_fails(3))
  next
    case (migrate_fails pg e)
    show ?thesis by (simp add: run_app_def Context_def migrate_fails(4))
  next
    case (blocked tr outs dfr ext)
    show ?thesis by (simp add: run_app_def Context_def blocked(2))
  next
    case (returned tr outs dfr ext)
    show ?thesis by (simp add: run_app_def Context_def returned(2))
  next
    case (failed tr outs dfr ext e)
    show ?thesis by (simp add: run_app_def Context_def failed(2))
  qed
qed

theorem context_nil_before_run_witness:
  "Context \<lparr>ctx = None, logger = Sugared ZapLogger,
            config = \<lparr>Outputs = \<lparr>Console = None, Postgres = None\<rparr>\<rparr>,
            contracts = [Contract ''token'']\<rparr> = None"
proof -
  have "NewApp env_healthy ''config.json''
          = Ok \<lparr>ctx = None, logger = Sugared ZapLogger,
                config = \<lparr>Outputs = \<lparr>Console = None, Postgres = None\<rparr>\<rparr>,
                contracts = [Contract ''token'']\<rparr>"
    by (simp add: NewApp_def Sugar_def env_healthy_def)
  with context_nil_before_run [of env_healthy "''config.json''"] show ?thesis
    by blast
qed

text \<open>
  C9. \<open>NewApp\<close> does not look at the error of \<open>zap.NewProduction\<close>: its result is the
  same whatever that error is, and when the constructor returns the nil logger,
  \<open>NewApp\<close> panics on it.
\<close>

theorem nil_logger_panics:
  "(fst (NewProduction env) = None
      \<longrightarrow> NewApp env configPath = Panicked ''nil pointer dereference'')
   \<and> NewApp (env\<lparr>NewProduction := (z, e1)\<rparr>) configPath
       = NewApp (env\<lparr>NewProduction := (z, e2)\<rparr>) configPath"
  by (cases z) (simp_all add: NewApp_def Sugar_def split: sum.splits)

theorem nil_logger_panics_witness:
  "NewApp env_no_logger ''config.json'' = Panicked ''nil pointer dereference''"
proof -
  have "fst (NewProduction env_no_logger) = None"
    by (simp add: env_no_logger_def)
  with nil_logger_panics [of env_no_logger "''config.json''"] show ?thesis
    by blast
qed

end
